theory Spec2Isabelle
  imports Main "HOL-Library.Sublist"
begin

section \<open>The \<open>add\<close> command: dependency resolution, file plans, installation\<close>

text \<open>
  The development follows the command module of the repository (the file that defines
  \<open>resolveDependencies\<close> and the \<open>add\<close> command with its \<open>handler\<close>).
  Strings are \<open>string\<close>; a template literal is a concatenation with \<open>@\<close>.
\<close>

subsection \<open>Registry and dependency records\<close>

text \<open>
  The type \<open>Registry\<close> is imported by the module from \<open>@/utils/types\<close>. The module reads
  five fields of an entry: \<open>name\<close>, \<open>hooks\<close>, \<open>utils\<close>, \<open>local\<close> and \<open>packages\<close>, the last
  four as arrays of strings. The registry itself is a parsed JSON object used only
  through \<open>registry[hook]\<close>. Its own properties are a partial map from keys to entries.
  A parsed JSON object inherits from \<open>Object.prototype\<close>: for a name that is not a key,
  \<open>registry[hook]\<close> is \<open>undefined\<close> unless the name is one of the properties of
  \<open>Object.prototype\<close> (in Node, the twelve names of \<open>object_prototype_keys\<close>), in which
  case it is a function or the prototype object: a truthy value that has no \<open>utils\<close>.
\<close>

record registry_item =
  item_name :: string
  item_hooks :: "string list"
  item_utils :: "string list"
  item_local :: "string list"
  item_packages :: "string list"

type_synonym registry = "string \<rightharpoonup> registry_item"



datatype dependency_type = Hook | Util | Local | Package

record dependency =
  dep_type :: dependency_type
  dep_name :: string
  dep_parent :: string

subsection \<open>The insertion-ordered \<open>Map\<close>\<close>

text \<open>
  \<open>files\<close> is a JavaScript \<open>Map\<close>: \<open>set\<close> on a key that is present replaces the value
  and keeps the key's position, \<open>set\<close> on a new key appends, and \<open>values()\<close> iterates in
  insertion order. It is an association list kept in that order.
\<close>

type_synonym 'v js_map = "(string \<times> 'v) list"

fun map_set :: "string \<Rightarrow> 'v \<Rightarrow> 'v js_map \<Rightarrow> 'v js_map" where
  "map_set k v [] = [(k, v)]"
| "map_set k v ((k', v') # kvs) =
     (if k' = k then (k, v) # kvs else (k', v') # map_set k v kvs)"

definition map_values :: "'v js_map \<Rightarrow> 'v list" where
  "map_values m = map snd m"

definition map_get :: "'v js_map \<Rightarrow> string \<Rightarrow> 'v option" where
  "map_get m k = map_of m k"

subsection \<open>Errors\<close>

text \<open>
  What can end the command early, as values:
  \<^item> \<open>TypeError\<close>: reading a property of \<open>undefined\<close> (the unchecked \<open>registry[hook]!\<close>);
  \<^item> \<open>RangeError\<close>: the engine's error when the call stack is exhausted;
  \<^item> \<open>HookNotFound h\<close>: the handler prints that hook \<open>h\<close> is not in the registry and
    exits with status 1;
  \<^item> \<open>NoHooksSelected\<close>: the handler prints that nothing was selected and exits with
    status 0;
  \<^item> \<open>FetchFailed url\<close>: the awaited request for \<open>url\<close> rejects;
  \<^item> \<open>FsError code p\<close>: a synchronous filesystem call on path \<open>p\<close> throws with that code.
  Nothing in the module catches an exception: a thrown error rejects the promise of the
  handler.
\<close>

datatype errno = ENOENT | ENOTDIR | EISDIR | EEXIST

datatype error =
    TypeError
  | RangeError
  | HookNotFound string
  | NoHooksSelected
  | FetchFailed string
  | FsError errno string

subsection \<open>\<open>resolveDependencies\<close>\<close>

text \<open>
  The three \<open>forEach\<close> calls of \<open>resolveDependency\<close>, each under its \<open>length\<close> test.
\<close>

definition set_each :: "dependency_type \<Rightarrow> string \<Rightarrow> string list \<Rightarrow> dependency js_map \<Rightarrow> dependency js_map" where
  "set_each t parent names files =
     (if length names \<noteq> 0
      then fold (\<lambda>n fs. map_set n \<lparr>dep_type = t, dep_name = n, dep_parent = parent\<rparr> fs) names files
      else files)"

text \<open>
  The straight-line part of \<open>resolveDependency\<close> for an entry that is present: the four
  groups of \<open>files.set\<close>, in the order of the source.
\<close>

definition record_item :: "string \<Rightarrow> registry_item \<Rightarrow> dependency js_map \<Rightarrow> dependency js_map" where
  "record_item hook item files =
     set_each Package (item_name item) (item_packages item)
       (set_each Local (item_name item) (item_local item)
         (set_each Util (item_name item) (item_utils item)
           (map_set hook \<lparr>dep_type = Hook, dep_name = hook, dep_parent = item_name item\<rparr> files)))"

text \<open>
  \<open>resolveDependency\<close> calls itself for every name in \<open>item.hooks\<close> and consults nothing
  before doing so. The recursion runs on the engine's call stack, which is finite: the
  first argument is the number of nested calls of \<open>resolveDependency\<close> that the stack
  still holds. \<open>None\<close> means that the stack is exhausted: the engine throws its
  \<open>RangeError\<close>, the call returns nothing, and the exception passes through every
  caller (the handler turns \<open>None\<close> into \<open>RangeError\<close> below). \<open>resolveEach\<close> is the
  \<open>for ... of\<close> loop, used for \<open>item.hooks\<close> and for the roots.

  A name with no entry of its own ends the call with a \<open>TypeError\<close>: for \<open>undefined\<close> at
  \<open>item.name\<close>, and for an inherited property of \<open>Object.prototype\<close> at
  \<open>item.utils.length\<close>, the property having no \<open>utils\<close>. The \<open>Map\<close> is lost with the
  exception in both cases.
\<close>

fun resolveDependency :: "nat \<Rightarrow> registry \<Rightarrow> string \<Rightarrow> dependency js_map \<Rightarrow> (error + dependency js_map) option"
  and resolveEach :: "nat \<Rightarrow> registry \<Rightarrow> string list \<Rightarrow> dependency js_map \<Rightarrow> (error + dependency js_map) option"
where
  "resolveDependency 0 registry hook files = None"
| "resolveDependency (Suc fuel) registry hook files =
     (case registry hook of
        None \<Rightarrow> Some (Inl TypeError)
      | Some item \<Rightarrow> resolveEach fuel registry (item_hooks item) (record_item hook item files))"
| "resolveEach fuel registry [] files = Some (Inr files)"
| "resolveEach fuel registry (hook # hooks) files =
     (case resolveDependency fuel registry hook files of
        None \<Rightarrow> None
      | Some (Inl e) \<Rightarrow> Some (Inl e)
      | Some (Inr files') \<Rightarrow> resolveEach fuel registry hooks files')"

definition resolveDependencies :: "nat \<Rightarrow> registry \<Rightarrow> string list \<Rightarrow> (error + dependency js_map) option" where
  "resolveDependencies fuel registry hooks = resolveEach fuel registry hooks []"

subsection \<open>Building the file plans\<close>

text \<open>
  What the plan builder reads from the handler's scope: the two resolved directories,
  the language (\<open>ts\<close> or \<open>js\<close>) and the entry of the table \<open>REPO_URLS\<close> for the language.
  \<open>REPO_URLS\<close> is imported from \<open>@/utils/constants\<close>; its value for
  \<open>language.toUpperCase()\<close> is the field \<open>repo_url\<close>.
\<close>

record plan_env =
  pathToLoadHooks :: string
  pathToLoadUtils :: string
  language :: string
  repo_url :: string

definition language_of :: "bool \<Rightarrow> string" where
  "language_of typescript = (if typescript then ''ts'' else ''js'')"

record file_plan =
  plan_name :: string
  directoryPath :: string
  registryPath :: string
  plan_type :: dependency_type
  indexPath :: string
  filePath :: string

text \<open>
  The callback given to \<open>map\<close>: it returns a plan, or \<open>undefined\<close> (here \<open>None\<close>) after
  pushing the name onto \<open>packages\<close>. The final \<open>throw\<close> of the callback is for a type
  outside the four of the union; \<open>dependency_type\<close> has no fifth value.
\<close>

definition plan_of :: "plan_env \<Rightarrow> dependency \<Rightarrow> string list \<Rightarrow> file_plan option \<times> string list" where
  "plan_of env dependency packages =
     (case dep_type dependency of
        Hook \<Rightarrow>
          (let filePath = dep_name dependency @ ''/'' @ dep_name dependency;
               directoryPath = pathToLoadHooks env @ ''/'' @ filePath @ ''.'' @ language env;
               registryPath = repo_url env @ ''/hooks/'' @ filePath @ ''.'' @ language env;
               indexPath = pathToLoadHooks env @ ''/index.'' @ language env
           in (Some \<lparr>plan_name = dep_name dependency, directoryPath = directoryPath,
                     registryPath = registryPath, plan_type = dep_type dependency,
                     indexPath = indexPath, filePath = filePath\<rparr>, packages))
      | Util \<Rightarrow>
          (let filePath = dep_name dependency;
               directoryPath = pathToLoadUtils env @ ''/'' @ filePath @ ''.'' @ language env;
               registryPath = repo_url env @ ''/utils/helpers/'' @ filePath @ ''.'' @ language env;
               indexPath = pathToLoadUtils env @ ''/index.'' @ language env
           in (Some \<lparr>plan_name = dep_name dependency, directoryPath = directoryPath,
                     registryPath = registryPath, plan_type = dep_type dependency,
                     indexPath = indexPath, filePath = filePath\<rparr>, packages))
      | Local \<Rightarrow>
          (let filePath = dep_name dependency;
               directoryPath = pathToLoadHooks env @ ''/'' @ dep_parent dependency @ ''/helpers/'' @ filePath @ ''.'' @ language env;
               registryPath = repo_url env @ ''/hooks/'' @ dep_parent dependency @ ''/helpers/'' @ filePath @ ''.'' @ language env;
               indexPath = pathToLoadHooks env @ ''/'' @ dep_parent dependency @ ''/helpers/index.'' @ language env
           in (Some \<lparr>plan_name = dep_name dependency, directoryPath = directoryPath,
                     registryPath = registryPath, plan_type = dep_type dependency,
                     indexPath = indexPath, filePath = filePath\<rparr>, packages))
      | Package \<Rightarrow> (None, packages @ [dep_name dependency]))"

text \<open>\<open>Array.prototype.map\<close> with that callback, the array \<open>packages\<close> threaded through.\<close>

fun map_plans :: "plan_env \<Rightarrow> dependency list \<Rightarrow> string list \<Rightarrow> file_plan option list \<times> string list" where
  "map_plans env [] packages = ([], packages)"
| "map_plans env (dependency # rest) packages =
     (case plan_of env dependency packages of
        (r, packages') \<Rightarrow>
          (case map_plans env rest packages' of
             (rs, packages'') \<Rightarrow> (r # rs, packages'')))"

text \<open>\<open>filter(Boolean)\<close>: a plan is an object, hence truthy; \<open>undefined\<close> is dropped.\<close>

fun filter_Boolean :: "'a option list \<Rightarrow> 'a list" where
  "filter_Boolean [] = []"
| "filter_Boolean (None # rs) = filter_Boolean rs"
| "filter_Boolean (Some f # rs) = f # filter_Boolean rs"

definition build_files :: "plan_env \<Rightarrow> dependency js_map \<Rightarrow> file_plan list \<times> string list" where
  "build_files env dependencies =
     (case map_plans env (map_values dependencies) [] of
        (rs, packages) \<Rightarrow> (filter_Boolean rs, packages))"

subsection \<open>\<open>path.dirname\<close>\<close>

text \<open>
  \<open>path.dirname\<close> of Node, in its POSIX form: the empty path gives \<open>.\<close>; otherwise the path
  is scanned from its last character down to index 1 for the first slash that follows a
  non-slash character, and the path is cut there. \<open>dirname_scan\<close> is that loop; it
  returns the index \<open>end\<close>, or \<open>None\<close> for \<open>-1\<close>.
\<close>

fun dirname_scan :: "string \<Rightarrow> nat \<Rightarrow> bool \<Rightarrow> nat option" where
  "dirname_scan p 0 matchedSlash = None"
| "dirname_scan p (Suc i) matchedSlash =
     (if p ! Suc i = CHR ''/''
      then (if \<not> matchedSlash then Some (Suc i) else dirname_scan p i matchedSlash)
      else dirname_scan p i False)"

definition path_dirname :: "string \<Rightarrow> string" where
  "path_dirname p =
     (if length p = 0 then ''.''
      else
        (let hasRoot = (p ! 0 = CHR ''/'') in
         case dirname_scan p (length p - 1) True of
           None \<Rightarrow> (if hasRoot then ''/'' else ''.'')
         | Some e \<Rightarrow> (if hasRoot \<and> e = 1 then ''//'' else take e p)))"

subsection \<open>The world the installer acts on\<close>

text \<open>
  The filesystem maps a path to a file with its content or to a directory. Paths are
  the strings the code builds; two strings are two paths. The root \<open>/\<close> and the current
  directory \<open>.\<close> are directories also when the map does not list them (\<open>stat\<close>).
  The terminal is a chronological list of events; the answers the user will give to
  the confirmation prompts are a list, consumed one per prompt, and a prompt with no
  answer left is a cancelled prompt, whose \<open>overwrite\<close> is \<open>undefined\<close>.
\<close>

datatype node = File string | Dir

datatype event =
    SpinnerStart string
  | SpinnerText string
  | SpinnerStop
  | SpinnerSucceed string
  | Prompt string
  | ConsoleLog string
  | Fetch string

record world =
  fs :: "string \<rightharpoonup> node"
  events :: "event list"
  answers :: "bool list"

definition emit :: "event \<Rightarrow> world \<Rightarrow> world" where
  "emit e w = w\<lparr>events := events w @ [e]\<rparr>"

definition stat :: "world \<Rightarrow> string \<Rightarrow> node option" where
  "stat w p =
     (case fs w p of
        Some n \<Rightarrow> Some n
      | None \<Rightarrow> (if p = ''/'' \<or> p = ''.'' then Some Dir else None))"

definition is_file :: "world \<Rightarrow> string \<Rightarrow> bool" where
  "is_file w p = (case stat w p of Some (File content) \<Rightarrow> True | _ \<Rightarrow> False)"

definition existsSync :: "world \<Rightarrow> string \<Rightarrow> bool" where
  "existsSync w p = (stat w p \<noteq> None)"

text \<open>
  The directories above a path, nearest first: \<open>path.dirname\<close> is applied until it
  returns its argument (\<open>/\<close> or \<open>.\<close>). A path has no more of them than characters.
\<close>

fun parents :: "nat \<Rightarrow> string \<Rightarrow> string list" where
  "parents 0 p = []"
| "parents (Suc n) p =
     (if path_dirname p = p then [] else path_dirname p # parents n (path_dirname p))"

text \<open>
  \<open>fs.mkdirSync(p, { recursive: true })\<close>: the directory and every missing directory
  above it are created; it throws when the path or a path above it is a file.
\<close>

definition mkdirSync :: "string \<Rightarrow> world \<Rightarrow> error + world" where
  "mkdirSync p w =
     (if is_file w p then Inl (FsError EEXIST p)
      else if list_ex (is_file w) (parents (length p) p) then Inl (FsError ENOTDIR p)
      else Inr (w\<lparr>fs := fold (\<lambda>q f. f(q \<mapsto> Dir)) (p # parents (length p) p) (fs w)\<rparr>))"

text \<open>
  Writing and appending replace or extend a file that exists, throw on a directory,
  and create a file that does not exist only in a directory that exists.
\<close>

definition create_file :: "string \<Rightarrow> string \<Rightarrow> world \<Rightarrow> error + world" where
  "create_file p content w =
     (case stat w (path_dirname p) of
        Some Dir \<Rightarrow> Inr (w\<lparr>fs := (fs w)(p \<mapsto> File content)\<rparr>)
      | Some (File parent) \<Rightarrow> Inl (FsError ENOTDIR p)
      | None \<Rightarrow> Inl (FsError ENOENT p))"

definition writeFileSync :: "string \<Rightarrow> string \<Rightarrow> world \<Rightarrow> error + world" where
  "writeFileSync p content w =
     (case stat w p of
        Some Dir \<Rightarrow> Inl (FsError EISDIR p)
      | Some (File old) \<Rightarrow> Inr (w\<lparr>fs := (fs w)(p \<mapsto> File content)\<rparr>)
      | None \<Rightarrow> create_file p content w)"

definition readFileSync :: "world \<Rightarrow> string \<Rightarrow> error + string" where
  "readFileSync w p =
     (case stat w p of
        Some (File content) \<Rightarrow> Inr content
      | Some Dir \<Rightarrow> Inl (FsError EISDIR p)
      | None \<Rightarrow> Inl (FsError ENOENT p))"

definition appendFileSync :: "string \<Rightarrow> string \<Rightarrow> world \<Rightarrow> error + world" where
  "appendFileSync p content w =
     (case stat w p of
        Some Dir \<Rightarrow> Inl (FsError EISDIR p)
      | Some (File old) \<Rightarrow> Inr (w\<lparr>fs := (fs w)(p \<mapsto> File (old @ content))\<rparr>)
      | None \<Rightarrow> create_file p content w)"

definition prompts :: "string \<Rightarrow> world \<Rightarrow> bool \<times> world" where
  "prompts message w =
     (case answers w of
        [] \<Rightarrow> (False, emit (Prompt message) w)
      | a # rest \<Rightarrow> (a, (emit (Prompt message) w)\<lparr>answers := rest\<rparr>))"

text \<open>\<open>String.prototype.includes\<close>: the pattern occurs as a contiguous part.\<close>

fun str_includes :: "string \<Rightarrow> string \<Rightarrow> bool" where
  "str_includes [] pat = (pat = [])"
| "str_includes (c # cs) pat = (prefix pat (c # cs) \<or> str_includes cs pat)"

subsection \<open>The installer loop\<close>

text \<open>
  The collaborators of the loop: the request for a file's content (\<open>None\<close> when the
  request fails) and \<open>chalk.green\<close>, which wraps a string in colour codes or leaves it
  alone, depending on the terminal.
\<close>

record install_env =
  fetches_get :: "string \<Rightarrow> string option"
  chalk_green :: "string \<Rightarrow> string"

definition exportStatement :: "file_plan \<Rightarrow> string" where
  "exportStatement file = ''export * from '' @ [CHR 0x27] @ ''./'' @ filePath file @ [CHR 0x27] @ '';'' @ [CHR 0x0A]"

text \<open>
  A step of the installer ends with the new world, or with an exception; the exception
  is paired with the world at the moment it is thrown, since what was written before
  stays on disk and on the terminal.

  The last four statements of the loop body: the barrel index.
\<close>

definition update_index :: "file_plan \<Rightarrow> world \<Rightarrow> (error \<times> world) + world" where
  "update_index file w =
     (case (if \<not> existsSync w (indexPath file) then writeFileSync (indexPath file) [] w else Inr w) of
        Inl e \<Rightarrow> Inl (e, w)
      | Inr w1 \<Rightarrow>
          (case readFileSync w1 (indexPath file) of
             Inl e \<Rightarrow> Inl (e, w1)
           | Inr indexFileContent \<Rightarrow>
               (if \<not> str_includes indexFileContent (exportStatement file)
                then (case appendFileSync (indexPath file) (exportStatement file) w1 of
                        Inl e \<Rightarrow> Inl (e, w1)
                      | Inr w2 \<Rightarrow> Inr w2)
                else Inr w1)))"

text \<open>The loop body after the confirmation: directory, fetch, write, index.\<close>

definition write_file :: "install_env \<Rightarrow> file_plan \<Rightarrow> string \<Rightarrow> world \<Rightarrow> (error \<times> world) + world" where
  "write_file env file directory w =
     (case (if \<not> existsSync w directory then mkdirSync directory w else Inr w) of
        Inl e \<Rightarrow> Inl (e, w)
      | Inr w1 \<Rightarrow>
          (case fetches_get env (registryPath file) of
             None \<Rightarrow> Inl (FetchFailed (registryPath file), emit (Fetch (registryPath file)) w1)
           | Some content \<Rightarrow>
               (case writeFileSync (directoryPath file) content (emit (Fetch (registryPath file)) w1) of
                  Inl e \<Rightarrow> Inl (e, emit (Fetch (registryPath file)) w1)
                | Inr w2 \<Rightarrow> update_index file w2)))"

text \<open>
  The confirmation block, entered under \<open>if (directory)\<close>: a string is truthy when it is
  not empty. The result \<open>False\<close> stands for the \<open>continue\<close>.
\<close>

definition confirm :: "install_env \<Rightarrow> file_plan \<Rightarrow> string \<Rightarrow> world \<Rightarrow> bool \<times> world" where
  "confirm env file directory w =
     (if directory \<noteq> [] then
        (case prompts (''File '' @ plan_name file @ '' already exists. Would you like to overwrite?'')
                (emit SpinnerStop w) of
           (overwrite, w1) \<Rightarrow>
             (if \<not> overwrite
              then (False, emit (ConsoleLog (''Skipped '' @ plan_name file @ ''. To overwrite, run with the ''
                                   @ chalk_green env ''--overwrite'' @ '' flag.'')) w1)
              else (True, emit (SpinnerStart (''Installing '' @ plan_name file @ ''...'')) w1)))
      else (True, w))"

definition install_file :: "install_env \<Rightarrow> file_plan \<Rightarrow> world \<Rightarrow> (error \<times> world) + world" where
  "install_file env file w =
     (let w1 = emit (SpinnerText (''Installing '' @ plan_name file @ ''...'')) w;
          directory = path_dirname (directoryPath file)
      in case confirm env file directory w1 of
           (False, w2) \<Rightarrow> Inr w2
         | (True, w2) \<Rightarrow> write_file env file directory w2)"

fun install_loop :: "install_env \<Rightarrow> file_plan list \<Rightarrow> world \<Rightarrow> (error \<times> world) + world" where
  "install_loop env [] w = Inr w"
| "install_loop env (file # files) w =
     (case install_file env file w of
        Inl e \<Rightarrow> Inl e
      | Inr w' \<Rightarrow> install_loop env files w')"


subsection \<open>The handler, from the check of the selected hooks on\<close>




section \<open>Notions used to state the properties\<close>

subsection \<open>The sequence of calls of \<open>resolveDependency\<close>\<close>

text \<open>
  \<open>visited\<close> follows the recursion of \<open>resolveDependency\<close> and \<open>visitedEach\<close> that of the
  loop, with the same stack and the same outcomes; where the resolver returns the
  \<open>Map\<close>, they return the arguments of the calls of \<open>resolveDependency\<close>, in the order in
  which the calls were made.
\<close>

fun visited :: "nat \<Rightarrow> registry \<Rightarrow> string \<Rightarrow> (error + string list) option"
  and visitedEach :: "nat \<Rightarrow> registry \<Rightarrow> string list \<Rightarrow> (error + string list) option"
where
  "visited 0 registry hook = None"
| "visited (Suc fuel) registry hook =
     (case registry hook of
        None \<Rightarrow> Some (Inl TypeError)
      | Some item \<Rightarrow>
          (case visitedEach fuel registry (item_hooks item) of
             None \<Rightarrow> None
           | Some (Inl e) \<Rightarrow> Some (Inl e)
           | Some (Inr vs) \<Rightarrow> Some (Inr (hook # vs))))"
| "visitedEach fuel registry [] = Some (Inr [])"
| "visitedEach fuel registry (hook # hooks) =
     (case visited fuel registry hook of
        None \<Rightarrow> None
      | Some (Inl e) \<Rightarrow> Some (Inl e)
      | Some (Inr vs) \<Rightarrow>
          (case visitedEach fuel registry hooks of
             None \<Rightarrow> None
           | Some (Inl e) \<Rightarrow> Some (Inl e)
           | Some (Inr ws) \<Rightarrow> Some (Inr (vs @ ws))))"

text \<open>
  What one call writes for its own entry, and the resolver's outcome rebuilt from a
  sequence of calls (lemma \<open>resolve_visited\<close> below: the two agree).
\<close>

definition record_visit :: "registry \<Rightarrow> string \<Rightarrow> dependency js_map \<Rightarrow> dependency js_map" where
  "record_visit registry hook files =
     (case registry hook of None \<Rightarrow> files | Some item \<Rightarrow> record_item hook item files)"

definition replay :: "registry \<Rightarrow> dependency js_map \<Rightarrow> (error + string list) option \<Rightarrow> (error + dependency js_map) option" where
  "replay registry files r =
     (case r of
        None \<Rightarrow> None
      | Some (Inl e) \<Rightarrow> Some (Inl e)
      | Some (Inr vs) \<Rightarrow> Some (Inr (fold (record_visit registry) vs files)))"

subsection \<open>Reachability through the \<open>hooks\<close> fields\<close>

text \<open>
  A name is reachable from the roots when it is a root, or is listed in the \<open>hooks\<close>
  field of the entry of a reachable name. The other three fields play no part.
\<close>

inductive reachable :: "registry \<Rightarrow> string list \<Rightarrow> string \<Rightarrow> bool"
  for registry :: registry and roots :: "string list"
where
  root: "hook \<in> set roots \<Longrightarrow> reachable registry roots hook"
| step: "reachable registry roots parent \<Longrightarrow> registry parent = Some item \<Longrightarrow>
         hook \<in> set (item_hooks item) \<Longrightarrow> reachable registry roots hook"

definition hooks_closed :: "registry \<Rightarrow> string set \<Rightarrow> bool" where
  "hooks_closed registry S \<longleftrightarrow>
     (\<forall>v \<in> S. \<forall>item. registry v = Some item \<longrightarrow> set (item_hooks item) \<subseteq> S)"

subsection \<open>What a call writes\<close>

text \<open>
  The leaf names of an entry; whether the call for \<open>hook\<close> writes the key \<open>n\<close>; the node a
  call writes for a name; and all key and node pairs written by the call for \<open>hook\<close>
  with entry \<open>item\<close>.
\<close>

definition leaves :: "registry_item \<Rightarrow> string set" where
  "leaves item = set (item_utils item) \<union> set (item_local item) \<union> set (item_packages item)"

definition records :: "registry \<Rightarrow> string \<Rightarrow> string \<Rightarrow> bool" where
  "records registry hook n =
     (case registry hook of None \<Rightarrow> False | Some item \<Rightarrow> n = hook \<or> n \<in> leaves item)"

definition node :: "dependency_type \<Rightarrow> string \<Rightarrow> registry_item \<Rightarrow> dependency" where
  "node t n item = \<lparr>dep_type = t, dep_name = n, dep_parent = item_name item\<rparr>"

definition written_by :: "string \<Rightarrow> registry_item \<Rightarrow> (string \<times> dependency) set" where
  "written_by hook item =
     {(hook, node Hook hook item)}
     \<union> (\<lambda>n. (n, node Util n item)) ` set (item_utils item)
     \<union> (\<lambda>n. (n, node Local n item)) ` set (item_local item)
     \<union> (\<lambda>n. (n, node Package n item)) ` set (item_packages item)"

subsection \<open>Concrete inputs\<close>



definition useFoo_registry :: "string \<Rightarrow> registry" where
  "useFoo_registry display =
     [''useFoo'' \<mapsto> \<lparr>item_name = display, item_hooks = [], item_utils = [''formatDate''],
                        item_local = [], item_packages = [''left-pad'']\<rparr>]"

text \<open>
  Two units that share a helper; a unit whose helper \<open>b\<close> is also a key of the registry;
  a unit whose key and \<open>name\<close> field differ and that has a local helper.
\<close>

definition shared_registry :: registry where
  "shared_registry =
     [''useA'' \<mapsto> \<lparr>item_name = ''useA'', item_hooks = [], item_utils = [''shared''], item_local = [], item_packages = []\<rparr>,
      ''useB'' \<mapsto> \<lparr>item_name = ''useB'', item_hooks = [], item_utils = [''shared''], item_local = [], item_packages = []\<rparr>]"

definition leaf_registry :: registry where
  "leaf_registry =
     [''a'' \<mapsto> \<lparr>item_name = ''a'', item_hooks = [], item_utils = [''b''], item_local = [], item_packages = []\<rparr>,
      ''b'' \<mapsto> \<lparr>item_name = ''b'', item_hooks = [], item_utils = [''c''], item_local = [], item_packages = []\<rparr>]"

definition display_registry :: registry where
  "display_registry =
     [''useBar'' \<mapsto> \<lparr>item_name = ''Display'', item_hooks = [], item_utils = [], item_local = [''helper''], item_packages = []\<rparr>]"

text \<open>
  A plan for the hook \<open>useFoo\<close>, an installer environment without colour, and a world
  whose hooks index already holds two export lines.
\<close>

definition useFoo_plan :: file_plan where
  "useFoo_plan =
     \<lparr>plan_name = ''useFoo'', directoryPath = ''/app/src/hooks/useFoo/useFoo.ts'',
      registryPath = ''repo/hooks/useFoo/useFoo.ts'', plan_type = Hook,
      indexPath = ''/app/src/hooks/index.ts'', filePath = ''useFoo/useFoo''\<rparr>"

definition plain_env :: install_env where
  "plain_env = \<lparr>fetches_get = (\<lambda>url. Some ''content''), chalk_green = (\<lambda>s. s)\<rparr>"

definition indexed_world :: world where
  "indexed_world =
     \<lparr>fs = [''/app'' \<mapsto> Dir, ''/app/src'' \<mapsto> Dir, ''/app/src/hooks'' \<mapsto> Dir,
            ''/app/src/hooks/index.ts'' \<mapsto> File (''export * from '' @ [CHR 0x27] @ ''./useBar/useBar'' @ [CHR 0x27] @ '';'' @ [CHR 0x0A]
                                                @ ''export * from '' @ [CHR 0x27] @ ''./useFoo/useFoo'' @ [CHR 0x27] @ '';'' @ [CHR 0x0A])],
      events = [], answers = []\<rparr>"

subsection \<open>The world after a declined confirmation\<close>

text \<open>
  The world \<open>w\<close> with four more events (the spinner text, the stop of the spinner, the
  prompt and the skip notice) and the remaining answers; nothing else differs from \<open>w\<close>.
\<close>

definition skipped :: "install_env \<Rightarrow> file_plan \<Rightarrow> bool list \<Rightarrow> world \<Rightarrow> world" where
  "skipped env file rest w =
     w\<lparr>events := events w @
          [SpinnerText (''Installing '' @ plan_name file @ ''...''),
           SpinnerStop,
           Prompt (''File '' @ plan_name file @ '' already exists. Would you like to overwrite?''),
           ConsoleLog (''Skipped '' @ plan_name file @ ''. To overwrite, run with the ''
                       @ chalk_green env ''--overwrite'' @ '' flag.'')],
        answers := rest\<rparr>"


section \<open>Lemmas\<close>

subsection \<open>Paths, the \<open>Map\<close>, strings\<close>

lemma dirname_scan_bounds:
  "dirname_scan p i m = Some e \<Longrightarrow> 1 \<le> e \<and> e \<le> i"
  by (induction p i m rule: dirname_scan.induct) (auto split: if_splits)

lemma path_dirname_nonempty: "path_dirname p \<noteq> []"
proof (cases "dirname_scan p (length p - 1) True")
  case None
  then show ?thesis by (simp add: path_dirname_def Let_def)
next
  case (Some e)
  from dirname_scan_bounds[OF Some] have "1 \<le> e" "e \<le> length p - 1" by simp_all
  then have "take e p \<noteq> []" by (cases p) auto
  with Some show ?thesis by (simp add: path_dirname_def Let_def)
qed

text \<open>
  \<open>path.dirname\<close> shortens a path of two characters or more, and the chain of
  directories above a path ends where \<open>path.dirname\<close> returns its argument.
\<close>

lemma dirname_scan_less:
  "dirname_scan p i m = Some e \<Longrightarrow> e \<le> i \<and> (m \<longrightarrow> e < i)"
  by (induction p i m rule: dirname_scan.induct) (auto split: if_splits)

lemma path_dirname_shorter:
  assumes "2 \<le> length p"
  shows "length (path_dirname p) < length p"
proof (cases "dirname_scan p (length p - 1) True")
  case None
  with assms show ?thesis by (auto simp: path_dirname_def Let_def)
next
  case (Some e)
  from dirname_scan_less[OF Some] have "e < length p - 1" by simp
  with Some assms show ?thesis by (auto simp: path_dirname_def Let_def)
qed

lemma path_dirname_single:
  assumes "length p = 1"
  shows "path_dirname p = ''/'' \<or> path_dirname p = ''.''"
  using assms by (simp add: path_dirname_def Let_def)

lemma path_dirname_fixed: "path_dirname ''/'' = ''/''" "path_dirname ''.'' = ''.''"
  by (simp_all add: path_dirname_def Let_def)

lemma parents_complete:
  assumes "p \<noteq> []" and "length p \<le> n"
  shows "path_dirname (last (p # parents n p)) = last (p # parents n p)"
  using assms
proof (induction n arbitrary: p)
  case 0
  then show ?case by simp
next
  case (Suc n)
  show ?case
  proof (cases "path_dirname p = p")
    case True
    then show ?thesis by simp
  next
    case False
    let ?d = "path_dirname p"
    have d: "?d \<noteq> []" by (rule path_dirname_nonempty)
    show ?thesis
    proof (cases "2 \<le> length p")
      case True
      from path_dirname_shorter[OF True] Suc.prems(2) have "length ?d \<le> n" by simp
      from Suc.IH[OF d this] False show ?thesis by simp
    next
      case short: False
      with Suc.prems(1) have "length p = 1" by (cases p) (auto simp: not_le)
      from path_dirname_single[OF this] have fx: "path_dirname ?d = ?d"
        using path_dirname_fixed by auto
      then have "parents n ?d = []" by (cases n) simp_all
      with False fx show ?thesis by simp
    qed
  qed
qed

lemma map_of_map_set: "map_of (map_set k v m) = (map_of m)(k \<mapsto> v)"
  by (induction m) (auto simp: fun_eq_iff)

lemma keys_map_set:
  "map fst (map_set k v m) = (if k \<in> fst ` set m then map fst m else map fst m @ [k])"
  by (induction m) force+

lemma distinct_map_set: "distinct (map fst m) \<Longrightarrow> distinct (map fst (map_set k v m))"
  by (simp add: keys_map_set)

lemma set_map_set: "set (map_set k v m) \<subseteq> insert (k, v) (set m)"
  by (induction m) (auto split: if_splits)

lemma length_filter_Boolean: "length (filter_Boolean rs) = length (filter (\<lambda>r. r \<noteq> None) rs)"
  by (induction rs rule: filter_Boolean.induct) auto

lemma str_includes_sublist: "str_includes s pat \<longleftrightarrow> sublist pat s"
  by (induction s) (auto simp: sublist_Cons_right)

lemma str_includes_append: "str_includes (xs @ pat) pat"
  by (simp add: str_includes_sublist)

subsection \<open>The resolver and its sequence of calls\<close>

text \<open>
  A larger stack changes nothing once the resolver has returned: the outcome does not
  depend on the size of the stack.
\<close>

lemma fuel_mono:
  "resolveDependency n registry hook files = Some r \<Longrightarrow> n \<le> m \<Longrightarrow>
     resolveDependency m registry hook files = Some r"
  "resolveEach n registry hooks files = Some r \<Longrightarrow> n \<le> m \<Longrightarrow>
     resolveEach m registry hooks files = Some r"
proof (induction n registry hook files and n registry hooks files arbitrary: m r and m r
       rule: resolveDependency_resolveEach.induct)
  case (1 registry hook files)
  then show ?case by simp
next
  case (2 fuel registry hook files)
  from "2.prems"(2) obtain m' where m: "m = Suc m'" and le: "fuel \<le> m'"
    by (cases m) auto
  show ?case
  proof (cases "registry hook")
    case None
    with "2.prems"(1) m show ?thesis by simp
  next
    case (Some item)
    with "2.prems"(1) have "resolveEach fuel registry (item_hooks item) (record_item hook item files) = Some r"
      by simp
    from "2.IH"[OF Some this le] Some m show ?thesis by simp
  qed
next
  case (3 fuel registry files)
  then show ?case by simp
next
  case (4 fuel registry hook hooks files)
  from "4.prems"(1) obtain r1 where r1: "resolveDependency fuel registry hook files = Some r1"
    by (auto split: option.splits)
  from "4.IH"(1)[OF r1 "4.prems"(2)] have m1: "resolveDependency m registry hook files = Some r1" .
  show ?case
  proof (cases r1)
    case (Inl e)
    with r1 "4.prems"(1) have "r = Inl e" by simp
    with m1 Inl show ?thesis by simp
  next
    case (Inr files')
    with r1 "4.prems"(1) have "resolveEach fuel registry hooks files' = Some r" by simp
    from "4.IH"(2)[OF r1 Inr this "4.prems"(2)] m1 Inr show ?thesis by simp
  qed
qed

lemma resolve_visited:
  "resolveDependency fuel registry hook files = replay registry files (visited fuel registry hook)"
  "resolveEach fuel registry hooks files = replay registry files (visitedEach fuel registry hooks)"
proof (induction fuel registry hook files and fuel registry hooks files
       rule: resolveDependency_resolveEach.induct)
  case (1 registry hook files)
  show ?case by (simp add: replay_def)
next
  case (2 fuel registry hook files)
  then show ?case
    by (simp add: replay_def record_visit_def split: option.splits sum.splits)
next
  case (3 fuel registry files)
  show ?case by (simp add: replay_def)
next
  case (4 fuel registry hook hooks files)
  show ?case
  proof (cases "visited fuel registry hook")
    case None
    with "4.IH"(1) show ?thesis by (simp add: replay_def)
  next
    case (Some r)
    show ?thesis
    proof (cases r)
      case (Inl e)
      with Some "4.IH"(1) show ?thesis by (simp add: replay_def)
    next
      case (Inr vs)
      with Some "4.IH"(1) have
        r: "resolveDependency fuel registry hook files = Some (Inr (fold (record_visit registry) vs files))"
        by (simp add: replay_def)
      from "4.IH"(2)[OF r] r Some Inr show ?thesis
        by (simp add: replay_def split: option.splits sum.splits)
    qed
  qed
qed

lemma reachable_trans:
  assumes "reachable registry rs v" and "\<And>r. r \<in> set rs \<Longrightarrow> reachable registry roots r"
  shows "reachable registry roots v"
  using assms by (induction rule: reachable.induct) (auto intro: reachable.step)

lemma reachable_via_item:
  assumes "reachable registry (item_hooks item) v" and "registry hook = Some item"
  shows "reachable registry [hook] v"
proof (rule reachable_trans[OF assms(1)])
  fix r assume "r \<in> set (item_hooks item)"
  with assms(2) show "reachable registry [hook] r"
    by (auto intro: reachable.step[OF reachable.root])
qed

lemma hooks_closed_Un: "hooks_closed r A \<Longrightarrow> hooks_closed r B \<Longrightarrow> hooks_closed r (A \<union> B)"
  by (auto simp: hooks_closed_def)

lemma visited_facts:
  "visited fuel registry hook = Some (Inr vs) \<Longrightarrow>
     hook \<in> set vs \<and> (\<forall>v \<in> set vs. registry v \<noteq> None \<and> reachable registry [hook] v)
       \<and> hooks_closed registry (set vs)"
  "visitedEach fuel registry hooks = Some (Inr ws) \<Longrightarrow>
     set hooks \<subseteq> set ws \<and> (\<forall>v \<in> set ws. registry v \<noteq> None \<and> reachable registry hooks v)
       \<and> hooks_closed registry (set ws)"
proof (induction fuel registry hook and fuel registry hooks arbitrary: vs and ws
       rule: visited_visitedEach.induct)
  case (1 registry hook)
  then show ?case by simp
next
  case (2 fuel registry hook)
  from "2.prems" obtain item vs' where
    item: "registry hook = Some item" and
    sub: "visitedEach fuel registry (item_hooks item) = Some (Inr vs')" and
    vs: "vs = hook # vs'"
    by (auto split: option.splits sum.splits)
  from "2.IH"[OF item sub] have
    a: "set (item_hooks item) \<subseteq> set vs'" and
    b: "\<forall>v \<in> set vs'. registry v \<noteq> None \<and> reachable registry (item_hooks item) v" and
    c: "hooks_closed registry (set vs')"
    by auto
  have "hooks_closed registry (set vs)"
    using a c item vs by (auto simp: hooks_closed_def)
  moreover have "\<forall>v \<in> set vs. registry v \<noteq> None \<and> reachable registry [hook] v"
    using b item vs by (auto intro: reachable.root reachable_via_item)
  ultimately show ?case using vs by simp
next
  case (3 fuel registry)
  then show ?case by (simp add: hooks_closed_def)
next
  case (4 fuel registry hook hooks)
  from "4.prems" obtain vs1 vs2 where
    v1: "visited fuel registry hook = Some (Inr vs1)" and
    v2: "visitedEach fuel registry hooks = Some (Inr vs2)" and
    ws: "ws = vs1 @ vs2"
    by (auto split: option.splits sum.splits)
  from "4.IH"(1)[OF v1] have
    a1: "hook \<in> set vs1" and
    b1: "\<forall>v \<in> set vs1. registry v \<noteq> None \<and> reachable registry [hook] v" and
    c1: "hooks_closed registry (set vs1)"
    by auto
  from "4.IH"(2)[OF v1 refl v2] have
    a2: "set hooks \<subseteq> set vs2" and
    b2: "\<forall>v \<in> set vs2. registry v \<noteq> None \<and> reachable registry hooks v" and
    c2: "hooks_closed registry (set vs2)"
    by auto
  have r1: "reachable registry (hook # hooks) v" if "v \<in> set vs1" for v
  proof (rule reachable_trans[of registry "[hook]"])
    from b1 that show "reachable registry [hook] v" by blast
  next
    fix r assume "r \<in> set [hook]"
    then show "reachable registry (hook # hooks) r" by (simp add: reachable.root)
  qed
  have r2: "reachable registry (hook # hooks) v" if "v \<in> set vs2" for v
  proof (rule reachable_trans[of registry hooks])
    from b2 that show "reachable registry hooks v" by blast
  next
    fix r assume "r \<in> set hooks"
    then show "reachable registry (hook # hooks) r" by (simp add: reachable.root)
  qed
  show ?case
    using a1 a2 b1 b2 r1 r2 hooks_closed_Un[OF c1 c2] ws by auto
qed

lemma reachable_visited:
  assumes "reachable registry roots h" and "visitedEach fuel registry roots = Some (Inr vs)"
  shows "h \<in> set vs"
  using assms(1)
proof (induction rule: reachable.induct)
  case (root hook)
  with visited_facts(2)[OF assms(2)] show ?case by auto
next
  case (step parent item hook)
  from visited_facts(2)[OF assms(2)] have "hooks_closed registry (set vs)" by simp
  with step show ?case
    unfolding hooks_closed_def by blast
qed

subsection \<open>What the calls leave in the \<open>Map\<close>\<close>

lemma map_of_set_each:
  "map_of (set_each t p names m) n =
     (if n \<in> set names then Some \<lparr>dep_type = t, dep_name = n, dep_parent = p\<rparr> else map_of m n)"
proof -
  have "map_of (fold (\<lambda>n fs. map_set n \<lparr>dep_type = t, dep_name = n, dep_parent = p\<rparr> fs) names m) n =
        (if n \<in> set names then Some \<lparr>dep_type = t, dep_name = n, dep_parent = p\<rparr> else map_of m n)"
    by (induction names arbitrary: m) (simp_all add: map_of_map_set)
  then show ?thesis by (simp add: set_each_def)
qed

lemma set_set_each:
  "set (set_each t p names m) \<subseteq>
     set m \<union> (\<lambda>n. (n, \<lparr>dep_type = t, dep_name = n, dep_parent = p\<rparr>)) ` set names"
proof -
  have "set (fold (\<lambda>n fs. map_set n \<lparr>dep_type = t, dep_name = n, dep_parent = p\<rparr> fs) names m) \<subseteq>
        set m \<union> (\<lambda>n. (n, \<lparr>dep_type = t, dep_name = n, dep_parent = p\<rparr>)) ` set names"
  proof (induction names arbitrary: m)
    case Nil
    show ?case by simp
  next
    case (Cons a names)
    from Cons.IH[of "map_set a \<lparr>dep_type = t, dep_name = a, dep_parent = p\<rparr> m"]
      set_map_set[of a "\<lparr>dep_type = t, dep_name = a, dep_parent = p\<rparr>" m]
    show ?case by auto
  qed
  then show ?thesis by (simp add: set_each_def)
qed

lemma distinct_set_each:
  "distinct (map fst m) \<Longrightarrow> distinct (map fst (set_each t p names m))"
proof -
  have "distinct (map fst m) \<Longrightarrow>
        distinct (map fst (fold (\<lambda>n fs. map_set n \<lparr>dep_type = t, dep_name = n, dep_parent = p\<rparr> fs) names m))"
    by (induction names arbitrary: m) (simp_all add: distinct_map_set)
  then show "distinct (map fst m) \<Longrightarrow> distinct (map fst (set_each t p names m))"
    by (simp add: set_each_def)
qed

lemma distinct_record_item:
  "distinct (map fst m) \<Longrightarrow> distinct (map fst (record_item hook item m))"
  unfolding record_item_def
  by (intro distinct_set_each distinct_map_set)

lemma set_record_item:
  "set (record_item hook item m) \<subseteq> set m \<union> written_by hook item"
proof -
  let ?m1 = "map_set hook \<lparr>dep_type = Hook, dep_name = hook, dep_parent = item_name item\<rparr> m"
  let ?m2 = "set_each Util (item_name item) (item_utils item) ?m1"
  let ?m3 = "set_each Local (item_name item) (item_local item) ?m2"
  have 1: "set ?m1 \<subseteq> set m \<union> written_by hook item"
    using set_map_set[of hook "\<lparr>dep_type = Hook, dep_name = hook, dep_parent = item_name item\<rparr>" m]
    by (auto simp: written_by_def node_def)
  have 2: "set ?m2 \<subseteq> set m \<union> written_by hook item"
    using set_set_each[of Util "item_name item" "item_utils item" ?m1] 1
    by (auto simp: written_by_def node_def)
  have 3: "set ?m3 \<subseteq> set m \<union> written_by hook item"
    using set_set_each[of Local "item_name item" "item_local item" ?m2] 2
    by (auto simp: written_by_def node_def)
  show ?thesis
    unfolding record_item_def
    using set_set_each[of Package "item_name item" "item_packages item" ?m3] 3
    by (auto simp: written_by_def node_def)
qed

lemma map_of_record_item_other:
  "n \<noteq> hook \<Longrightarrow> n \<notin> leaves item \<Longrightarrow> map_of (record_item hook item m) n = map_of m n"
  by (simp add: record_item_def map_of_set_each map_of_map_set leaves_def)

lemma map_of_record_item_written:
  assumes "n = hook \<or> n \<in> leaves item"
  shows "\<exists>d. map_of (record_item hook item m) n = Some d \<and> dep_parent d = item_name item \<and> dep_name d = n"
  using assms by (auto simp: record_item_def map_of_set_each map_of_map_set leaves_def)

lemma map_of_record_visit_other:
  "\<not> records registry v n \<Longrightarrow> map_of (record_visit registry v m) n = map_of m n"
  by (auto simp: records_def record_visit_def map_of_record_item_other split: option.splits)

lemma map_of_fold_other:
  "\<forall>v \<in> set zs. \<not> records registry v n \<Longrightarrow>
     map_of (fold (record_visit registry) zs m) n = map_of m n"
  by (induction zs arbitrary: m) (simp_all add: map_of_record_visit_other)

lemma last_writer:
  assumes "registry B = Some itemB" and "n = B \<or> n \<in> leaves itemB"
    and "\<forall>v \<in> set zs. \<not> records registry v n"
  shows "\<exists>d. map_of (fold (record_visit registry) (xs @ B # zs) m) n = Some d
            \<and> dep_parent d = item_name itemB \<and> dep_name d = n"
proof -
  have "map_of (fold (record_visit registry) (xs @ B # zs) m) n =
        map_of (record_item B itemB (fold (record_visit registry) xs m)) n"
    using assms(1,3) by (simp add: map_of_fold_other record_visit_def)
  with map_of_record_item_written[OF assms(2)] show ?thesis by simp
qed

lemma distinct_fold_visits:
  "distinct (map fst m) \<Longrightarrow> distinct (map fst (fold (record_visit registry) vs m))"
  by (induction vs arbitrary: m)
     (simp_all add: record_visit_def distinct_record_item split: option.splits)

lemma set_fold_visits:
  "(k, d) \<in> set (fold (record_visit registry) vs m) \<Longrightarrow>
     (k, d) \<in> set m \<or> (\<exists>v \<in> set vs. \<exists>item. registry v = Some item \<and> (k, d) \<in> written_by v item)"
proof (induction vs arbitrary: m)
  case Nil
  then show ?case by simp
next
  case (Cons v vs)
  from Cons.IH[OF Cons.prems[simplified]] show ?case
  proof
    assume "(k, d) \<in> set (record_visit registry v m)"
    then show ?thesis
      using set_record_item[of v _ m]
      by (fastforce simp: record_visit_def split: option.splits)
  next
    assume "\<exists>v \<in> set vs. \<exists>item. registry v = Some item \<and> (k, d) \<in> written_by v item"
    then show ?thesis by auto
  qed
qed

subsection \<open>The resolved graph\<close>

lemma written_by_name: "(k, d) \<in> written_by hook item \<Longrightarrow> dep_name d = k \<and> dep_parent d = item_name item"
  by (auto simp: written_by_def node_def)

lemma written_by_Hook: "(k, d) \<in> written_by hook item \<Longrightarrow> dep_type d = Hook \<Longrightarrow> k = hook"
  by (auto simp: written_by_def node_def)

lemma resolved_graph:
  assumes "resolveDependencies fuel registry roots = Some (Inr g)"
  obtains vs where "visitedEach fuel registry roots = Some (Inr vs)"
    and "g = fold (record_visit registry) vs []"
  using assms unfolding resolveDependencies_def resolve_visited(2) replay_def
  by (auto split: option.splits sum.splits)

lemma resolved_distinct:
  assumes "resolveDependencies fuel registry roots = Some (Inr g)"
  shows "distinct (map fst g)"
proof -
  from assms obtain vs where "g = fold (record_visit registry) vs []"
    by (rule resolved_graph)
  then show ?thesis by (simp add: distinct_fold_visits)
qed

lemma resolved_written:
  assumes "resolveDependencies fuel registry roots = Some (Inr g)" and "(k, d) \<in> set g"
  shows "\<exists>hook item. reachable registry roots hook \<and> registry hook = Some item
           \<and> (k, d) \<in> written_by hook item"
proof -
  from assms(1) obtain vs where
    vs: "visitedEach fuel registry roots = Some (Inr vs)" and g: "g = fold (record_visit registry) vs []"
    by (rule resolved_graph)
  from set_fold_visits[of k d registry vs "[]"] assms(2) g obtain v item where
    "v \<in> set vs" "registry v = Some item" "(k, d) \<in> written_by v item"
    by auto
  with visited_facts(2)[OF vs] show ?thesis by blast
qed

lemma resolved_names:
  assumes "resolveDependencies fuel registry roots = Some (Inr g)"
  shows "map dep_name (map_values g) = map fst g"
proof -
  have "dep_name (snd p) = fst p" if "p \<in> set g" for p
    using resolved_written[OF assms, of "fst p" "snd p"] that written_by_name by auto
  then show ?thesis by (simp add: map_values_def)
qed

subsection \<open>The plan builder\<close>

lemma plan_of_Package:
  "dep_type d = Package \<Longrightarrow> plan_of env d ps = (None, ps @ [dep_name d])"
  by (simp add: plan_of_def)

lemma plan_of_file:
  "dep_type d \<noteq> Package \<Longrightarrow>
     \<exists>f. plan_of env d ps = (Some f, ps) \<and> plan_name f = dep_name d \<and> plan_type f = dep_type d"
  by (cases "dep_type d") (simp_all add: plan_of_def Let_def)

lemma map_plans_split:
  "map_plans env ds ps = (rs, ps') \<Longrightarrow>
     ps' = ps @ map dep_name (filter (\<lambda>d. dep_type d = Package) ds)
     \<and> map plan_name (filter_Boolean rs) = map dep_name (filter (\<lambda>d. dep_type d \<noteq> Package) ds)
     \<and> map plan_type (filter_Boolean rs) = map dep_type (filter (\<lambda>d. dep_type d \<noteq> Package) ds)"
proof (induction ds arbitrary: ps rs)
  case Nil
  then show ?case by simp
next
  case (Cons d ds)
  show ?case
  proof (cases "dep_type d = Package")
    case True
    from Cons.prems plan_of_Package[OF True, of env ps] obtain rs' where
      rest: "map_plans env ds (ps @ [dep_name d]) = (rs', ps')" and rs: "rs = None # rs'"
      by (auto split: prod.splits)
    from Cons.IH[OF rest] True rs show ?thesis by simp
  next
    case False
    from plan_of_file[OF False, of env ps] obtain f where
      f: "plan_of env d ps = (Some f, ps)" "plan_name f = dep_name d" "plan_type f = dep_type d"
      by blast
    with Cons.prems obtain rs' where
      rest: "map_plans env ds ps = (rs', ps')" and rs: "rs = Some f # rs'"
      by (auto split: prod.splits)
    from Cons.IH[OF rest] False rs f show ?thesis by simp
  qed
qed

subsection \<open>The installer\<close>

lemma confirm_prompts:
  "\<exists>overwrite w'. confirm env file (path_dirname p) w = (overwrite, w')
      \<and> Prompt (''File '' @ plan_name file @ '' already exists. Would you like to overwrite?'') \<in> set (events w')"
  by (cases "answers w")
     (auto simp: confirm_def prompts_def emit_def path_dirname_nonempty)

lemma install_file_declined:
  assumes "answers w = False # rest"
  shows "install_file env file w = Inr (skipped env file rest w)"
  using assms
  by (simp add: install_file_def confirm_def prompts_def emit_def path_dirname_nonempty
      skipped_def Let_def)

lemma stat_File: "stat w p = Some (File content) \<longleftrightarrow> fs w p = Some (File content)"
  by (auto simp: stat_def split: option.splits if_splits)

lemma update_index_present:
  assumes "fs w (indexPath file) = Some (File content)"
    and "str_includes content (exportStatement file)"
  shows "update_index file w = Inr w"
proof -
  from assms(1) have "stat w (indexPath file) = Some (File content)"
    by (simp add: stat_File)
  with assms(2) show ?thesis
    by (simp add: update_index_def existsSync_def readFileSync_def)
qed

lemma exportStatement_nonempty: "exportStatement file \<noteq> []"
  by (simp add: exportStatement_def)

lemma written_index:
  assumes "writeFileSync p [] w = Inr w1"
  shows "stat w1 p = Some (File [])"
  using assms
  by (auto simp: writeFileSync_def create_file_def stat_def
      split: option.splits node.splits if_splits)

lemma appended_index:
  assumes "stat w1 p = Some (File old)" and "appendFileSync p line w1 = Inr w2"
  shows "fs w2 p = Some (File (old @ line))"
  using assms by (auto simp: appendFileSync_def)

lemma update_index_result:
  assumes "update_index file w = Inr w'"
  shows "\<exists>content. fs w' (indexPath file) = Some (File content)
           \<and> str_includes content (exportStatement file)"
proof -
  let ?p = "indexPath file"
  from assms obtain w1 where
    w1: "(if \<not> existsSync w ?p then writeFileSync ?p [] w else Inr w) = Inr w1"
    by (auto simp: update_index_def split: sum.splits)
  from assms w1 obtain old where old: "readFileSync w1 ?p = Inr old"
    by (auto simp: update_index_def split: sum.splits)
  then have st: "stat w1 ?p = Some (File old)"
    by (auto simp: readFileSync_def split: option.splits node.splits)
  show ?thesis
  proof (cases "str_includes old (exportStatement file)")
    case True
    with assms w1 old have "w' = w1" by (simp add: update_index_def)
    with st True show ?thesis by (auto simp: stat_File)
  next
    case False
    with assms w1 old have "appendFileSync ?p (exportStatement file) w1 = Inr w'"
      by (auto simp: update_index_def split: sum.splits)
    from appended_index[OF st this] show ?thesis
      using str_includes_append[of old "exportStatement file"] by simp
  qed
qed

lemma useFoo_directory:
  "path_dirname (directoryPath useFoo_plan) = ''/app/src/hooks/useFoo''"
  by code_simp


section \<open>Properties of the resolver\<close>

subsection \<open>A cycle in the registry\<close>




subsection \<open>A name that the registry does not have\<close>







subsection \<open>The one-entry registry\<close>

text \<open>
  C4. For the registry that maps \<open>useFoo\<close> to no sub-units, the shared helper
  \<open>formatDate\<close>, no local helpers and the package \<open>left-pad\<close>, resolving \<open>[useFoo]\<close> (on
  any stack that holds one call) and building the plans with extension \<open>x\<close> gives exactly one plan
  of type hook, with destination \<open>hooksRoot/useFoo/useFoo.x\<close>, then exactly one plan of
  type util, with destination \<open>utilsRoot/formatDate.x\<close>, no plan of type local, and the
  packages \<open>[left-pad]\<close>.
\<close>

theorem plan_correctness:
  "resolveDependencies (Suc n) (useFoo_registry display) [''useFoo''] =
     Some (Inr [(''useFoo'', \<lparr>dep_type = Hook, dep_name = ''useFoo'', dep_parent = display\<rparr>),
                (''formatDate'', \<lparr>dep_type = Util, dep_name = ''formatDate'', dep_parent = display\<rparr>),
                (''left-pad'', \<lparr>dep_type = Package, dep_name = ''left-pad'', dep_parent = display\<rparr>)])
   \<and> build_files \<lparr>pathToLoadHooks = hooksRoot, pathToLoadUtils = utilsRoot, language = x, repo_url = repo\<rparr>
        [(''useFoo'', \<lparr>dep_type = Hook, dep_name = ''useFoo'', dep_parent = display\<rparr>),
         (''formatDate'', \<lparr>dep_type = Util, dep_name = ''formatDate'', dep_parent = display\<rparr>),
         (''left-pad'', \<lparr>dep_type = Package, dep_name = ''left-pad'', dep_parent = display\<rparr>)] =
       ([\<lparr>plan_name = ''useFoo'', directoryPath = hooksRoot @ ''/useFoo/useFoo.'' @ x,
          registryPath = repo @ ''/hooks/useFoo/useFoo.'' @ x, plan_type = Hook,
          indexPath = hooksRoot @ ''/index.'' @ x, filePath = ''useFoo/useFoo''\<rparr>,
         \<lparr>plan_name = ''formatDate'', directoryPath = utilsRoot @ ''/formatDate.'' @ x,
          registryPath = repo @ ''/utils/helpers/formatDate.'' @ x, plan_type = Util,
          indexPath = utilsRoot @ ''/index.'' @ x, filePath = ''formatDate''\<rparr>],
        [''left-pad''])"
  by (simp add: useFoo_registry_def resolveDependencies_def record_item_def set_each_def
      build_files_def map_values_def plan_of_def Let_def)

section \<open>Properties of the resolved graph\<close>

text \<open>
  C6. In every resolution result each name is a key at most once. When the calls of
  \<open>resolveDependency\<close> were, in order, \<open>xs\<close>, \<open>A\<close>, \<open>ys\<close>, \<open>B\<close>, \<open>zs\<close>, the name \<open>n\<close> is a leaf of
  both \<open>A\<close> and \<open>B\<close>, and no call after \<open>B\<close> writes \<open>n\<close>, the node that survives under \<open>n\<close>
  has the parent written by \<open>B\<close>.
\<close>

theorem parent_overwrite:
  assumes "resolveDependencies fuel registry roots = Some (Inr g)"
  shows "distinct (map fst g)
       \<and> (visitedEach fuel registry roots = Some (Inr (xs @ A # ys @ B # zs))
            \<and> registry A = Some itemA \<and> registry B = Some itemB
            \<and> n \<in> leaves itemA \<and> n \<in> leaves itemB
            \<and> (\<forall>v \<in> set zs. \<not> records registry v n)
          \<longrightarrow> (\<exists>d. map_get g n = Some d \<and> dep_name d = n \<and> dep_parent d = item_name itemB))"
proof (intro conjI impI)
  show "distinct (map fst g)"
    using assms by (rule resolved_distinct)
next
  assume sc: "visitedEach fuel registry roots = Some (Inr (xs @ A # ys @ B # zs))
      \<and> registry A = Some itemA \<and> registry B = Some itemB
      \<and> n \<in> leaves itemA \<and> n \<in> leaves itemB
      \<and> (\<forall>v \<in> set zs. \<not> records registry v n)"
  from assms obtain vs where
    vs: "visitedEach fuel registry roots = Some (Inr vs)" and g: "g = fold (record_visit registry) vs []"
    by (rule resolved_graph)
  from vs sc have "vs = (xs @ A # ys) @ B # zs" by simp
  with g have g': "g = fold (record_visit registry) ((xs @ A # ys) @ B # zs) []" by simp
  from sc have "registry B = Some itemB" "n = B \<or> n \<in> leaves itemB"
    "\<forall>v \<in> set zs. \<not> records registry v n" by simp_all
  from last_writer[OF this, of "xs @ A # ys" "[]"] g'
  show "\<exists>d. map_get g n = Some d \<and> dep_name d = n \<and> dep_parent d = item_name itemB"
    by (auto simp: map_get_def)
qed

theorem parent_overwrite_witness:
  "resolveDependencies (Suc 0) shared_registry [''useA'', ''useB''] =
     Some (Inr [(''useA'', \<lparr>dep_type = Hook, dep_name = ''useA'', dep_parent = ''useA''\<rparr>),
                (''shared'', \<lparr>dep_type = Util, dep_name = ''shared'', dep_parent = ''useB''\<rparr>),
                (''useB'', \<lparr>dep_type = Hook, dep_name = ''useB'', dep_parent = ''useB''\<rparr>)])
   \<and> visitedEach (Suc 0) shared_registry [''useA'', ''useB''] = Some (Inr ([] @ ''useA'' # [] @ ''useB'' # []))
   \<and> ''shared'' \<in> leaves \<lparr>item_name = ''useA'', item_hooks = [], item_utils = [''shared''], item_local = [], item_packages = []\<rparr>
   \<and> ''shared'' \<in> leaves \<lparr>item_name = ''useB'', item_hooks = [], item_utils = [''shared''], item_local = [], item_packages = []\<rparr>
   \<and> distinct [''useA'', ''shared'', ''useB'']
   \<and> (\<exists>d. map_get [(''useA'', \<lparr>dep_type = Hook, dep_name = ''useA'', dep_parent = ''useA''\<rparr>),
                (''shared'', \<lparr>dep_type = Util, dep_name = ''shared'', dep_parent = ''useB''\<rparr>),
                (''useB'', \<lparr>dep_type = Hook, dep_name = ''useB'', dep_parent = ''useB''\<rparr>)] ''shared'' = Some d
          \<and> dep_name d = ''shared'' \<and> dep_parent d = ''useB'')"
proof -
  let ?g = "[(''useA'', \<lparr>dep_type = Hook, dep_name = ''useA'', dep_parent = ''useA''\<rparr>),
             (''shared'', \<lparr>dep_type = Util, dep_name = ''shared'', dep_parent = ''useB''\<rparr>),
             (''useB'', \<lparr>dep_type = Hook, dep_name = ''useB'', dep_parent = ''useB''\<rparr>)]"
  let ?A = "\<lparr>item_name = ''useA'', item_hooks = [], item_utils = [''shared''], item_local = [], item_packages = []\<rparr>"
  let ?B = "\<lparr>item_name = ''useB'', item_hooks = [], item_utils = [''shared''], item_local = [], item_packages = []\<rparr>"
  have r: "resolveDependencies (Suc 0) shared_registry [''useA'', ''useB''] = Some (Inr ?g)"
    by (simp add: resolveDependencies_def shared_registry_def record_item_def set_each_def)
  have v: "visitedEach (Suc 0) shared_registry [''useA'', ''useB''] = Some (Inr ([] @ ''useA'' # [] @ ''useB'' # []))"
    by (simp add: shared_registry_def)
  have l: "''shared'' \<in> leaves ?A" "''shared'' \<in> leaves ?B"
    by (simp_all add: leaves_def)
  have e: "shared_registry ''useA'' = Some ?A" "shared_registry ''useB'' = Some ?B"
    by (simp_all add: shared_registry_def)
  from parent_overwrite[OF r, of "[]" "''useA''" "[]" "''useB''" "[]" ?A ?B "''shared''"] v l e
  show ?thesis using r by simp
qed

text \<open>
  C8. When the resolver returns, its result is what the calls of \<open>resolveDependency\<close>
  write, in their order, and every call is for a name that is reachable from the roots
  through \<open>hooks\<close> fields alone: a root, or a name in the \<open>hooks\<close> field of the entry of a
  name that a call was made for. A name that occurs only in \<open>utils\<close>, \<open>local\<close> or \<open>packages\<close>
  gets no call, also when it is a key of the registry.
\<close>

theorem only_hooks_recursed:
  assumes "visitedEach fuel registry roots = Some (Inr vs)"
  shows "resolveDependencies fuel registry roots = Some (Inr (fold (record_visit registry) vs []))
       \<and> (\<forall>v \<in> set vs. reachable registry roots v)
       \<and> (\<forall>v \<in> set vs. v \<in> set roots \<or>
            (\<exists>u \<in> set vs. \<exists>item. registry u = Some item \<and> v \<in> set (item_hooks item)))"
proof -
  have 1: "resolveDependencies fuel registry roots = Some (Inr (fold (record_visit registry) vs []))"
    using assms by (simp add: resolveDependencies_def resolve_visited(2) replay_def)
  have 2: "\<forall>v \<in> set vs. reachable registry roots v"
    using visited_facts(2)[OF assms] by blast
  have 3: "v \<in> set roots \<or> (\<exists>u \<in> set vs. \<exists>item. registry u = Some item \<and> v \<in> set (item_hooks item))"
    if "v \<in> set vs" for v
  proof -
    from 2 that have "reachable registry roots v" by blast
    then show ?thesis
    proof (cases rule: reachable.cases)
      case root
      then show ?thesis by simp
    next
      case (step parent item)
      from reachable_visited[OF step(1) assms] step(2,3) show ?thesis by blast
    qed
  qed
  from 1 2 3 show ?thesis by blast
qed

text \<open>
  In \<open>leaf_registry\<close> the helper \<open>b\<close> of \<open>a\<close> is a key as well; resolving \<open>[a]\<close> calls
  \<open>resolveDependency\<close> for \<open>a\<close> only, and the helper \<open>c\<close> of \<open>b\<close> is not in the result.
\<close>

theorem only_hooks_recursed_witness:
  "visitedEach (Suc 0) leaf_registry [''a''] = Some (Inr [''a''])
   \<and> leaf_registry ''b'' \<noteq> None
   \<and> ''b'' \<notin> set [''a'']
   \<and> resolveDependencies (Suc 0) leaf_registry [''a''] =
       Some (Inr [(''a'', \<lparr>dep_type = Hook, dep_name = ''a'', dep_parent = ''a''\<rparr>),
                  (''b'', \<lparr>dep_type = Util, dep_name = ''b'', dep_parent = ''a''\<rparr>)])
   \<and> reachable leaf_registry [''a''] ''a''"
proof -
  have v: "visitedEach (Suc 0) leaf_registry [''a''] = Some (Inr [''a''])"
    by (simp add: leaf_registry_def)
  have f: "fold (record_visit leaf_registry) [''a''] [] =
      [(''a'', \<lparr>dep_type = Hook, dep_name = ''a'', dep_parent = ''a''\<rparr>),
       (''b'', \<lparr>dep_type = Util, dep_name = ''b'', dep_parent = ''a''\<rparr>)]"
    by (simp add: leaf_registry_def record_visit_def record_item_def set_each_def)
  from only_hooks_recursed[OF v] show ?thesis
    using v f by (simp add: leaf_registry_def)
qed

text \<open>
  C10. Every node of a resolution result was written by the call for some reachable
  unit \<open>hook\<close> with entry \<open>item\<close>, and its parent is the \<open>name\<close> field of that entry, not
  the key \<open>hook\<close>; for a node of type hook, \<open>hook\<close> is the node's own key. The plan of a
  node of type local has its destination, its index and its source built from that
  \<open>name\<close> field.
\<close>

theorem parent_is_display_name:
  assumes "resolveDependencies fuel registry roots = Some (Inr g)" and "(k, d) \<in> set g"
  shows "\<exists>hook item. reachable registry roots hook \<and> registry hook = Some item
           \<and> (k, d) \<in> written_by hook item
           \<and> dep_parent d = item_name item
           \<and> (dep_type d = Hook \<longrightarrow> k = hook)
           \<and> (dep_type d = Local \<longrightarrow>
                plan_of env d packages =
                  (Some \<lparr>plan_name = k,
                         directoryPath = pathToLoadHooks env @ ''/'' @ item_name item @ ''/helpers/'' @ k @ ''.'' @ language env,
                         registryPath = repo_url env @ ''/hooks/'' @ item_name item @ ''/helpers/'' @ k @ ''.'' @ language env,
                         plan_type = Local,
                         indexPath = pathToLoadHooks env @ ''/'' @ item_name item @ ''/helpers/index.'' @ language env,
                         filePath = k\<rparr>, packages))"
proof -
  from resolved_written[OF assms] obtain hook item where
    h: "reachable registry roots hook" "registry hook = Some item" "(k, d) \<in> written_by hook item"
    by blast
  from written_by_name[OF h(3)] have nm: "dep_name d = k" "dep_parent d = item_name item"
    by simp_all
  have "dep_type d = Hook \<longrightarrow> k = hook"
    using written_by_Hook[OF h(3)] by blast
  moreover have "dep_type d = Local \<longrightarrow>
      plan_of env d packages =
        (Some \<lparr>plan_name = k,
               directoryPath = pathToLoadHooks env @ ''/'' @ item_name item @ ''/helpers/'' @ k @ ''.'' @ language env,
               registryPath = repo_url env @ ''/hooks/'' @ item_name item @ ''/helpers/'' @ k @ ''.'' @ language env,
               plan_type = Local,
               indexPath = pathToLoadHooks env @ ''/'' @ item_name item @ ''/helpers/index.'' @ language env,
               filePath = k\<rparr>, packages)"
    using nm by (simp add: plan_of_def Let_def)
  ultimately show ?thesis using h nm by blast
qed

theorem parent_is_display_name_witness:
  "resolveDependencies (Suc 0) display_registry [''useBar''] =
     Some (Inr [(''useBar'', \<lparr>dep_type = Hook, dep_name = ''useBar'', dep_parent = ''Display''\<rparr>),
                (''helper'', \<lparr>dep_type = Local, dep_name = ''helper'', dep_parent = ''Display''\<rparr>)])
   \<and> (''helper'', \<lparr>dep_type = Local, dep_name = ''helper'', dep_parent = ''Display''\<rparr>)
        \<in> set [(''useBar'', \<lparr>dep_type = Hook, dep_name = ''useBar'', dep_parent = ''Display''\<rparr>),
                (''helper'', \<lparr>dep_type = Local, dep_name = ''helper'', dep_parent = ''Display''\<rparr>)]
   \<and> (\<exists>hook item. display_registry hook = Some item \<and> hook = ''useBar'' \<and> item_name item = ''Display''
        \<and> plan_of \<lparr>pathToLoadHooks = ''src/hooks'', pathToLoadUtils = ''src/utils'', language = ''ts'', repo_url = ''repo''\<rparr>
             \<lparr>dep_type = Local, dep_name = ''helper'', dep_parent = ''Display''\<rparr> [] =
           (Some \<lparr>plan_name = ''helper'',
                  directoryPath = ''src/hooks/Display/helpers/helper.ts'',
                  registryPath = ''repo/hooks/Display/helpers/helper.ts'',
                  plan_type = Local,
                  indexPath = ''src/hooks/Display/helpers/index.ts'',
                  filePath = ''helper''\<rparr>, []))"
proof -
  let ?g = "[(''useBar'', \<lparr>dep_type = Hook, dep_name = ''useBar'', dep_parent = ''Display''\<rparr>),
             (''helper'', \<lparr>dep_type = Local, dep_name = ''helper'', dep_parent = ''Display''\<rparr>)]"
  let ?d = "\<lparr>dep_type = Local, dep_name = ''helper'', dep_parent = ''Display''\<rparr>"
  let ?env = "\<lparr>pathToLoadHooks = ''src/hooks'', pathToLoadUtils = ''src/utils'', language = ''ts'', repo_url = ''repo''\<rparr>"
  have r: "resolveDependencies (Suc 0) display_registry [''useBar''] = Some (Inr ?g)"
    by (simp add: resolveDependencies_def display_registry_def record_item_def set_each_def)
  have m: "(''helper'', ?d) \<in> set ?g" by simp
  from parent_is_display_name[OF r m, of ?env "[]"] obtain hook item where
    h: "display_registry hook = Some item" "dep_parent ?d = item_name item"
       "dep_type ?d = Local \<longrightarrow> plan_of ?env ?d [] =
          (Some \<lparr>plan_name = ''helper'',
                 directoryPath = pathToLoadHooks ?env @ ''/'' @ item_name item @ ''/helpers/'' @ ''helper'' @ ''.'' @ language ?env,
                 registryPath = repo_url ?env @ ''/hooks/'' @ item_name item @ ''/helpers/'' @ ''helper'' @ ''.'' @ language ?env,
                 plan_type = Local,
                 indexPath = pathToLoadHooks ?env @ ''/'' @ item_name item @ ''/helpers/index.'' @ language ?env,
                 filePath = ''helper''\<rparr>, [])"
    by blast
  from h(1) have hk: "hook = ''useBar''"
    by (simp add: display_registry_def split: if_splits)
  from h(2) have "item_name item = ''Display''" by simp
  with h hk r m show ?thesis by auto
qed

section \<open>Properties of the plan builder\<close>

text \<open>
  C5. For a resolved graph, the plans are those of the nodes that are not packages,
  in the graph's order, and the packages are the names of the package nodes, in the
  graph's order; no name is in both, every key of the graph is in one of the two, and
  the number of plans plus the size of the package set is the number of nodes.
\<close>

theorem partition_completeness:
  assumes "resolveDependencies fuel registry roots = Some (Inr g)"
    and "build_files env g = (files, packages)"
  shows "length files + card (set packages) = length g
       \<and> map plan_name files = map dep_name (filter (\<lambda>d. dep_type d \<noteq> Package) (map_values g))
       \<and> map plan_type files = map dep_type (filter (\<lambda>d. dep_type d \<noteq> Package) (map_values g))
       \<and> packages = map dep_name (filter (\<lambda>d. dep_type d = Package) (map_values g))
       \<and> set (map plan_name files) \<inter> set packages = {}
       \<and> set (map plan_name files) \<union> set packages = fst ` set g"
proof -
  let ?vals = "map_values g"
  from assms(2) obtain rs where
    rs: "map_plans env ?vals [] = (rs, packages)" and files: "files = filter_Boolean rs"
    by (auto simp: build_files_def split: prod.splits)
  from map_plans_split[OF rs] files have
    p: "packages = map dep_name (filter (\<lambda>d. dep_type d = Package) ?vals)" and
    n: "map plan_name files = map dep_name (filter (\<lambda>d. dep_type d \<noteq> Package) ?vals)" and
    t: "map plan_type files = map dep_type (filter (\<lambda>d. dep_type d \<noteq> Package) ?vals)"
    by simp_all
  have dn: "distinct (map dep_name ?vals)"
    using resolved_names[OF assms(1)] resolved_distinct[OF assms(1)] by simp
  then have inj: "inj_on dep_name (set ?vals)"
    by (simp add: distinct_map)
  have "distinct packages"
    unfolding p using dn by (rule distinct_map_filter)
  then have card: "card (set packages) = length packages"
    by (rule distinct_card)
  have "length files = length (filter (\<lambda>d. dep_type d \<noteq> Package) ?vals)"
    using n by (metis length_map)
  moreover have "length packages = length (filter (\<lambda>d. dep_type d = Package) ?vals)"
    using p by simp
  moreover have "length (filter (\<lambda>d. dep_type d \<noteq> Package) ?vals)
      + length (filter (\<lambda>d. dep_type d = Package) ?vals) = length ?vals"
    using sum_length_filter_compl[of "\<lambda>d. dep_type d = Package" ?vals] by simp
  ultimately have len: "length files + card (set packages) = length g"
    using card by (simp add: map_values_def)
  have disj: "set (map plan_name files) \<inter> set packages = {}"
    unfolding n p using inj by (auto dest: inj_onD)
  have "set (map plan_name files) \<union> set packages = dep_name ` set ?vals"
    unfolding n p by auto
  also have "\<dots> = set (map dep_name ?vals)" by simp
  also have "\<dots> = fst ` set g" using resolved_names[OF assms(1)] by simp
  finally show ?thesis using len n t p disj by blast
qed

theorem partition_completeness_witness:
  "resolveDependencies (Suc 0) (useFoo_registry ''useFoo'') [''useFoo''] =
     Some (Inr [(''useFoo'', \<lparr>dep_type = Hook, dep_name = ''useFoo'', dep_parent = ''useFoo''\<rparr>),
                (''formatDate'', \<lparr>dep_type = Util, dep_name = ''formatDate'', dep_parent = ''useFoo''\<rparr>),
                (''left-pad'', \<lparr>dep_type = Package, dep_name = ''left-pad'', dep_parent = ''useFoo''\<rparr>)])
   \<and> build_files \<lparr>pathToLoadHooks = ''src/hooks'', pathToLoadUtils = ''src/utils'', language = ''ts'', repo_url = ''repo''\<rparr>
        [(''useFoo'', \<lparr>dep_type = Hook, dep_name = ''useFoo'', dep_parent = ''useFoo''\<rparr>),
         (''formatDate'', \<lparr>dep_type = Util, dep_name = ''formatDate'', dep_parent = ''useFoo''\<rparr>),
         (''left-pad'', \<lparr>dep_type = Package, dep_name = ''left-pad'', dep_parent = ''useFoo''\<rparr>)] =
       ([\<lparr>plan_name = ''useFoo'', directoryPath = ''src/hooks/useFoo/useFoo.ts'',
          registryPath = ''repo/hooks/useFoo/useFoo.ts'', plan_type = Hook,
          indexPath = ''src/hooks/index.ts'', filePath = ''useFoo/useFoo''\<rparr>,
         \<lparr>plan_name = ''formatDate'', directoryPath = ''src/utils/formatDate.ts'',
          registryPath = ''repo/utils/helpers/formatDate.ts'', plan_type = Util,
          indexPath = ''src/utils/index.ts'', filePath = ''formatDate''\<rparr>],
        [''left-pad''])
   \<and> (2::nat) + card (set [''left-pad'']) = 3"
proof -
  let ?g = "[(''useFoo'', \<lparr>dep_type = Hook, dep_name = ''useFoo'', dep_parent = ''useFoo''\<rparr>),
             (''formatDate'', \<lparr>dep_type = Util, dep_name = ''formatDate'', dep_parent = ''useFoo''\<rparr>),
             (''left-pad'', \<lparr>dep_type = Package, dep_name = ''left-pad'', dep_parent = ''useFoo''\<rparr>)]"
  let ?env = "\<lparr>pathToLoadHooks = ''src/hooks'', pathToLoadUtils = ''src/utils'', language = ''ts'', repo_url = ''repo''\<rparr>"
  let ?files = "[\<lparr>plan_name = ''useFoo'', directoryPath = ''src/hooks/useFoo/useFoo.ts'',
          registryPath = ''repo/hooks/useFoo/useFoo.ts'', plan_type = Hook,
          indexPath = ''src/hooks/index.ts'', filePath = ''useFoo/useFoo''\<rparr>,
         \<lparr>plan_name = ''formatDate'', directoryPath = ''src/utils/formatDate.ts'',
          registryPath = ''repo/utils/helpers/formatDate.ts'', plan_type = Util,
          indexPath = ''src/utils/index.ts'', filePath = ''formatDate''\<rparr>]"
  have r: "resolveDependencies (Suc 0) (useFoo_registry ''useFoo'') [''useFoo''] = Some (Inr ?g)"
    by (simp add: useFoo_registry_def resolveDependencies_def record_item_def set_each_def)
  have b: "build_files ?env ?g = (?files, [''left-pad''])"
    by (simp add: build_files_def map_values_def plan_of_def Let_def)
  from partition_completeness[OF r b] have "length ?files + card (set [''left-pad'']) = length ?g"
    by blast
  then have "(2::nat) + card (set [''left-pad'']) = 3" by simp
  with r b show ?thesis by blast
qed

section \<open>Properties of the installer\<close>

text \<open>
  C1. The claim is that the confirmation is shown exactly when the directory of the
  destination exists. The loop enters the confirmation under \<open>if (directory)\<close>, a test of
  the string that \<open>path.dirname\<close> returns, and that string is never empty. Here the
  filesystem is empty, so the directory of the plan's destination does not exist, and
  the loop still asks whether to overwrite; the answer being no, the plan is skipped
  and nothing is installed.
\<close>

theorem prompt_without_existing_directory:
  "\<not> existsSync \<lparr>fs = Map.empty, events = [], answers = [False]\<rparr> (path_dirname (directoryPath useFoo_plan))
   \<and> install_file plain_env useFoo_plan \<lparr>fs = Map.empty, events = [], answers = [False]\<rparr> =
       Inr \<lparr>fs = Map.empty,
            events = [SpinnerText ''Installing useFoo...'',
                      SpinnerStop,
                      Prompt ''File useFoo already exists. Would you like to overwrite?'',
                      ConsoleLog ''Skipped useFoo. To overwrite, run with the --overwrite flag.''],
            answers = []\<rparr>"
proof -
  have "answers \<lparr>fs = Map.empty, events = [], answers = [False]\<rparr> = False # []"
    by simp
  from install_file_declined[OF this, of plain_env useFoo_plan] have
    "install_file plain_env useFoo_plan \<lparr>fs = Map.empty, events = [], answers = [False]\<rparr> =
       Inr \<lparr>fs = Map.empty,
            events = [SpinnerText ''Installing useFoo...'',
                      SpinnerStop,
                      Prompt ''File useFoo already exists. Would you like to overwrite?'',
                      ConsoleLog ''Skipped useFoo. To overwrite, run with the --overwrite flag.''],
            answers = []\<rparr>"
    by (simp add: skipped_def useFoo_plan_def plain_env_def)
  moreover have "\<not> existsSync \<lparr>fs = Map.empty, events = [], answers = [False]\<rparr>
      (path_dirname (directoryPath useFoo_plan))"
    by (simp add: useFoo_directory existsSync_def stat_def)
  ultimately show ?thesis by simp
qed

text \<open>
  C9. When the answer to the confirmation for a plan is no, the loop body ends for
  that plan with the filesystem as it was and no request made; the only new events
  are the spinner text, the stop of the spinner, the prompt and the notice
  \<open>Skipped name. To overwrite, run with the --overwrite flag.\<close>; and the loop goes on
  with the plans that follow.
\<close>

theorem decline_skips_plan:
  assumes "answers w = False # rest"
  shows "install_file env file w = Inr (skipped env file rest w)
       \<and> fs (skipped env file rest w) = fs w
       \<and> (\<forall>url. Fetch url \<notin> set (events (skipped env file rest w)) - set (events w))
       \<and> install_loop env (file # files) w = install_loop env files (skipped env file rest w)"
  using install_file_declined[OF assms, of env "file"]
  by (auto simp: skipped_def)

theorem decline_skips_plan_witness:
  "answers \<lparr>fs = Map.empty, events = [], answers = [False]\<rparr> = False # []
   \<and> install_file plain_env useFoo_plan \<lparr>fs = Map.empty, events = [], answers = [False]\<rparr> =
       Inr (skipped plain_env useFoo_plan [] \<lparr>fs = Map.empty, events = [], answers = [False]\<rparr>)
   \<and> events (skipped plain_env useFoo_plan [] \<lparr>fs = Map.empty, events = [], answers = [False]\<rparr>) =
       [SpinnerText ''Installing useFoo...'',
        SpinnerStop,
        Prompt ''File useFoo already exists. Would you like to overwrite?'',
        ConsoleLog ''Skipped useFoo. To overwrite, run with the --overwrite flag.'']
   \<and> install_loop plain_env [useFoo_plan] \<lparr>fs = Map.empty, events = [], answers = [False]\<rparr> =
       Inr (skipped plain_env useFoo_plan [] \<lparr>fs = Map.empty, events = [], answers = [False]\<rparr>)"
proof -
  have a: "answers \<lparr>fs = Map.empty, events = [], answers = [False]\<rparr> = False # []" by simp
  from decline_skips_plan[OF a, of plain_env useFoo_plan "[]"] show ?thesis
    by (simp add: skipped_def useFoo_plan_def plain_env_def)
qed

text \<open>
  C7. The update of the barrel index changes nothing when the index file's text
  already contains the plan's export line, terminated by a newline; and after an update
  that succeeded, a second update for the same plan changes nothing, so that repeating
  it adds no second copy of the line.
\<close>

theorem index_update_idempotent:
  "(fs w (indexPath file) = Some (File content) \<and> str_includes content (exportStatement file)
      \<longrightarrow> update_index file w = Inr w)
   \<and> (update_index file w = Inr w' \<longrightarrow> update_index file w' = Inr w')"
proof (intro conjI impI)
  assume "fs w (indexPath file) = Some (File content) \<and> str_includes content (exportStatement file)"
  then show "update_index file w = Inr w"
    using update_index_present by blast
next
  assume "update_index file w = Inr w'"
  from update_index_result[OF this] show "update_index file w' = Inr w'"
    using update_index_present by blast
qed

theorem index_update_idempotent_witness:
  "fs indexed_world (indexPath useFoo_plan) =
     Some (File (''export * from '' @ [CHR 0x27] @ ''./useBar/useBar'' @ [CHR 0x27] @ '';'' @ [CHR 0x0A]
                 @ ''export * from '' @ [CHR 0x27] @ ''./useFoo/useFoo'' @ [CHR 0x27] @ '';'' @ [CHR 0x0A]))
   \<and> str_includes (''export * from '' @ [CHR 0x27] @ ''./useBar/useBar'' @ [CHR 0x27] @ '';'' @ [CHR 0x0A]
                 @ ''export * from '' @ [CHR 0x27] @ ''./useFoo/useFoo'' @ [CHR 0x27] @ '';'' @ [CHR 0x0A])
        (exportStatement useFoo_plan)
   \<and> update_index useFoo_plan indexed_world = Inr indexed_world"
proof -
  let ?c = "''export * from '' @ [CHR 0x27] @ ''./useBar/useBar'' @ [CHR 0x27] @ '';'' @ [CHR 0x0A]
            @ ''export * from '' @ [CHR 0x27] @ ''./useFoo/useFoo'' @ [CHR 0x27] @ '';'' @ [CHR 0x0A]"
  have a: "fs indexed_world (indexPath useFoo_plan) = Some (File ?c)"
    by (simp add: indexed_world_def useFoo_plan_def)
  have b: "str_includes ?c (exportStatement useFoo_plan)"
    by (simp add: exportStatement_def useFoo_plan_def)
  from index_update_idempotent[of indexed_world useFoo_plan ?c indexed_world] a b
  have "update_index useFoo_plan indexed_world = Inr indexed_world"
    by blast
  with a b show ?thesis by blast
qed

end
